theory Spec2Isabelle
  imports Complex_Main
begin

section \<open>Strings and character classes\<close>

text \<open>
  A Python \<open>str\<close> is a sequence of Unicode code points, and \<open>len\<close>, slicing and the
  positions reported by \<open>re\<close> count code points. A string is therefore a list of code
  points (natural numbers); ASCII literals are written through \<open>ascii\<close>.
\<close>

type_synonym pystr = "nat list"

definition ascii :: "string \<Rightarrow> pystr" where
  "ascii s = map of_char s"

definition stars :: "nat \<Rightarrow> pystr" where
  \<comment> \<open>\<open>'*' * n\<close>\<close>
  "stars n = replicate n (of_char CHR ''*'')"

text \<open>
  For a \<open>str\<close> pattern, \<open>\d\<close> matches every Unicode decimal digit and \<open>\w\<close> every
  Unicode alphanumeric character and the underscore. On ASCII both classes are fixed
  (\<open>[0-9]\<close> and \<open>[0-9A-Za-z_]\<close>); beyond ASCII they are read from the interpreter's
  Unicode database, which is not part of the repository and is taken as a parameter:
  \<open>decimal\<close> says which non-ASCII code points are decimal digits, \<open>alnum\<close> which
  further non-ASCII code points are alphanumeric. Every decimal digit is alphanumeric,
  so \<open>\w\<close> contains \<open>\d\<close>.
\<close>

record unicode_db =
  decimal :: "nat \<Rightarrow> bool"
  alnum :: "nat \<Rightarrow> bool"

definition ascii_only :: unicode_db where
  \<comment> \<open>a database without non-ASCII digits or letters; enough for ASCII inputs\<close>
  "ascii_only = \<lparr>decimal = (\<lambda>c. False), alnum = (\<lambda>c. False)\<rparr>"

type_synonym cclass = "nat \<Rightarrow> bool"

definition cls_09 :: cclass where
  \<comment> \<open>\<open>[0-9]\<close>\<close>
  "cls_09 c = (of_char CHR ''0'' \<le> c \<and> c \<le> of_char CHR ''9'')"

definition cls_09Xx :: cclass where
  \<comment> \<open>\<open>[0-9Xx]\<close>\<close>
  "cls_09Xx c = (cls_09 c \<or> c = of_char CHR ''X'' \<or> c = of_char CHR ''x'')"

definition cls_09AZaz :: cclass where
  \<comment> \<open>\<open>[0-9A-Za-z]\<close>\<close>
  "cls_09AZaz c =
     (cls_09 c \<or> (of_char CHR ''A'' \<le> c \<and> c \<le> of_char CHR ''Z'')
       \<or> (of_char CHR ''a'' \<le> c \<and> c \<le> of_char CHR ''z''))"

definition cls_d :: "unicode_db \<Rightarrow> cclass" where
  \<comment> \<open>\<open>\d\<close>\<close>
  "cls_d U c = (cls_09 c \<or> (128 \<le> c \<and> decimal U c))"

definition cls_w :: "unicode_db \<Rightarrow> cclass" where
  \<comment> \<open>\<open>\w\<close>\<close>
  "cls_w U c =
     (cls_09AZaz c \<or> c = of_char CHR ''_'' \<or> cls_d U c \<or> (128 \<le> c \<and> alnum U c))"

section \<open>The fragment of \<open>re\<close> the masks use\<close>

text \<open>
  Every pattern of the source is a fixed-length sequence of character classes, or (in
  \<open>_mask_id_number\<close>) an alternation of two such sequences. A sequence is a list of
  classes; the groups of a match sit at fixed offsets, so a replacement template is a
  function of the matched text.
\<close>

fun match_here :: "cclass list \<Rightarrow> pystr \<Rightarrow> bool" where
  "match_here [] s = True"
| "match_here (p # ps) [] = False"
| "match_here (p # ps) (c # cs) = (p c \<and> match_here ps cs)"

fun first_alt :: "cclass list list \<Rightarrow> pystr \<Rightarrow> nat option" where
  \<comment> \<open>the length matched at the start of the string by the first alternative that matches\<close>
  "first_alt [] s = None"
| "first_alt (p # ps) s = (if match_here p s then Some (length p) else first_alt ps s)"

fun re_search :: "cclass list list \<Rightarrow> pystr \<Rightarrow> (nat \<times> nat) option" where
  \<comment> \<open>\<open>re.search\<close>: start and end of the leftmost match, alternatives tried in order\<close>
  "re_search alts [] = (case first_alt alts [] of Some n \<Rightarrow> Some (0, n) | None \<Rightarrow> None)"
| "re_search alts (c # cs) =
     (case first_alt alts (c # cs) of
        Some n \<Rightarrow> Some (0, n)
      | None \<Rightarrow> (case re_search alts cs of
                   None \<Rightarrow> None
                 | Some (st, en) \<Rightarrow> Some (Suc st, Suc en)))"

definition re_fullmatch :: "cclass list \<Rightarrow> pystr \<Rightarrow> bool" where
  "re_fullmatch p s = (match_here p s \<and> length s = length p)"

function re_sub :: "cclass list \<Rightarrow> (pystr \<Rightarrow> pystr) \<Rightarrow> pystr \<Rightarrow> pystr" where
  \<comment> \<open>\<open>re.sub\<close> for a non-empty sequence: every non-overlapping match, left to right\<close>
  "re_sub p f s =
     (if p \<noteq> [] \<and> match_here p s
      then f (take (length p) s) @ re_sub p f (drop (length p) s)
      else (case s of [] \<Rightarrow> [] | c # cs \<Rightarrow> c # re_sub p f cs))"
  by pat_completeness auto
termination
proof (relation "measure (\<lambda>(p, f, s). length s)")
  show "wf (measure (\<lambda>(p, f, s). length s))"
    by simp
next
  fix p :: "cclass list" and f :: "pystr \<Rightarrow> pystr" and s :: pystr
  assume a: "p \<noteq> [] \<and> match_here p s"
  have len: "match_here q t \<Longrightarrow> length q \<le> length t" for q t
    by (induction q t rule: match_here.induct) auto
  from a len [of p s] have "0 < length p" and "length p \<le> length s"
    by auto
  then have "length s - length p < length s"
    by arith
  then show "((p, f, drop (length p) s), (p, f, s)) \<in> measure (\<lambda>(p, f, s). length s)"
    by simp
next
  fix p :: "cclass list" and f :: "pystr \<Rightarrow> pystr" and s :: pystr and c cs
  assume "s = c # cs"
  then show "((p, f, cs), (p, f, s)) \<in> measure (\<lambda>(p, f, s). length s)"
    by simp
qed

declare re_sub.simps [simp del]

section \<open>The masks\<close>

definition mask_phone :: "unicode_db \<Rightarrow> pystr \<Rightarrow> pystr" where
  "mask_phone U number =
     (case re_search [replicate 11 (cls_d U)] number of
        None \<Rightarrow> re_sub [cls_d U] (\<lambda>m. stars 1) number
      | Some (st, en) \<Rightarrow>
          (let digits = take (en - st) (drop st number);
               masked = re_sub (replicate 3 (cls_d U) @ replicate 4 (cls_d U)
                                  @ replicate 4 (cls_d U))
                          (\<lambda>m. take 3 m @ stars 4 @ take 4 (drop 7 m)) digits;
               prefix = take st number;
               suffix = drop en number
           in prefix @ masked @ suffix))"

definition mask_id_number :: "unicode_db \<Rightarrow> pystr \<Rightarrow> pystr" where
  "mask_id_number U id_num =
     (case re_search [replicate 17 (cls_d U) @ [cls_09Xx], replicate 15 (cls_d U)] id_num of
        None \<Rightarrow> re_sub [cls_09AZaz] (\<lambda>m. stars 1) id_num
      | Some (st, en) \<Rightarrow>
          (let core = take (en - st) (drop st id_num);
               p18 = replicate 6 (cls_d U) @ replicate 8 (cls_d U) @ replicate 4 (cls_w U);
               p15 = replicate 6 (cls_d U) @ replicate 5 (cls_d U) @ replicate 4 (cls_w U);
               masked =
                 (if re_fullmatch p18 core
                  then re_sub p18 (\<lambda>m. take 6 m @ stars 8 @ take 4 (drop 14 m)) core
                  else if re_fullmatch p15 core
                  then re_sub p15 (\<lambda>m. take 6 m @ stars 6 @ take 4 (drop 11 m)) core
                  else (if length core > 5
                        then take 3 core @ stars (length core - 5)
                               @ drop (length core - 2) core
                        else stars (length core)));
               prefix = take st id_num;
               suffix = drop en id_num
           in prefix @ masked @ suffix))"

section \<open>Python values\<close>

text \<open>
  The payload of the remote service is whatever \<open>json\<close> parsing returns, and the code
  handles it without checking its shape: \<open>.get\<close> exists on a dict only, \<open>for\<close> iterates a
  list, a string (its characters) or a dict (its keys), and \<open>re.search\<close> accepts a string
  only. A dict keeps its insertion order and is an association list; a JSON number with
  a fraction is a \<open>float\<close>, here a real number, of which the code only asks whether it
  is zero.
\<close>

datatype pyval =
    PNone
  | PBool bool
  | PInt int
  | PFloat real
  | PStr pystr
  | PList "pyval list"
  | PDict "(pystr \<times> pyval) list"

datatype exn = AttributeError | TypeError | JSONDecodeError

fun truthy :: "pyval \<Rightarrow> bool" where
  "truthy PNone = False"
| "truthy (PBool b) = b"
| "truthy (PInt i) = (i \<noteq> 0)"
| "truthy (PFloat x) = (x \<noteq> 0)"
| "truthy (PStr s) = (s \<noteq> [])"
| "truthy (PList vs) = (vs \<noteq> [])"
| "truthy (PDict kvs) = (kvs \<noteq> [])"

definition dict_get :: "(pystr \<times> pyval) list \<Rightarrow> pystr \<Rightarrow> pyval" where
  \<comment> \<open>\<open>d.get(key)\<close> on a dict: \<open>None\<close> for a missing key\<close>
  "dict_get kvs key = (case map_of kvs key of None \<Rightarrow> PNone | Some v \<Rightarrow> v)"

fun py_get :: "pyval \<Rightarrow> pystr \<Rightarrow> exn + pyval" where
  \<comment> \<open>\<open>x.get(key)\<close>: only a dict has the method\<close>
  "py_get (PDict kvs) key = Inr (dict_get kvs key)"
| "py_get x key = Inl AttributeError"

fun py_iter :: "pyval \<Rightarrow> exn + pyval list" where
  \<comment> \<open>the items a \<open>for\<close> over \<open>x\<close> visits\<close>
  "py_iter (PList vs) = Inr vs"
| "py_iter (PStr s) = Inr (map (\<lambda>c. PStr [c]) s)"
| "py_iter (PDict kvs) = Inr (map (\<lambda>kv. PStr (fst kv)) kvs)"
| "py_iter x = Inl TypeError"

fun dict_set :: "(pystr \<times> pyval) list \<Rightarrow> pystr \<Rightarrow> pyval \<Rightarrow> (pystr \<times> pyval) list" where
  \<comment> \<open>\<open>d[key] = v\<close>\<close>
  "dict_set [] key v = [(key, v)]"
| "dict_set ((k, w) # kvs) key v =
     (if k = key then (k, v) # kvs else (k, w) # dict_set kvs key v)"

fun join :: "pystr \<Rightarrow> pystr list \<Rightarrow> pystr" where
  \<comment> \<open>\<open>sep.join(xs)\<close>\<close>
  "join sep [] = []"
| "join sep [x] = x"
| "join sep (x # y # ys) = x @ sep @ join sep (y # ys)"

definition py_str :: "(pyval \<Rightarrow> pystr) \<Rightarrow> pyval \<Rightarrow> pystr" where
  \<comment> \<open>\<open>str(v)\<close>: a string is returned as it is; the text of any other value is the
      interpreter's, taken as the parameter \<open>repr\<close>\<close>
  "py_str repr v = (case v of PStr s \<Rightarrow> s | _ \<Rightarrow> repr v)"

section \<open>The client\<close>

definition FIELD_LABELS :: "(pystr \<times> pystr) list" where
  "FIELD_LABELS =
     [(ascii ''names'', [0x59D3, 0x540D]),
      (ascii ''nicknames'', [0x6635, 0x79F0]),
      (ascii ''phone_numbers'', [0x53F7, 0x7801]),
      (ascii ''id_numbers'', [0x8EAB, 0x4EFD, 0x8BC1]),
      (ascii ''wb_numbers'', [0x5FAE, 0x535A]),
      (ascii ''passwords'', [0x5BC6, 0x7801]),
      (ascii ''emails'', [0x90AE, 0x7BB1]),
      (ascii ''addresses'', [0x5730, 0x5740])]"

definition DEFAULT_FIELD_ORDER :: "pystr list" where
  "DEFAULT_FIELD_ORDER = map fst FIELD_LABELS"

definition DEFAULT_HEADERS :: "(pystr \<times> pystr) list" where
  "DEFAULT_HEADERS =
     [(ascii ''accept'', ascii ''*/*''),
      (ascii ''referer'', ascii ''https://library.aiuys.com/''),
      (ascii ''user-agent'', ascii ''Mozilla/5.0'')]"

record client =
  cookie :: pystr
  headers :: "(pystr \<times> pystr) list"
  desensitize :: bool

definition init :: "pystr \<Rightarrow> bool \<Rightarrow> client" where
  \<comment> \<open>\<open>__init__\<close>, from the two values of the configuration\<close>
  "init ck ds =
     \<lparr>cookie = ck,
      headers = (if ck \<noteq> [] then DEFAULT_HEADERS @ [(ascii ''Cookie'', ck)]
                 else DEFAULT_HEADERS),
      desensitize = ds\<rparr>"

subsection \<open>\<open>_sanitize\<close>\<close>

fun mask_each :: "(pystr \<Rightarrow> pystr) \<Rightarrow> pyval list \<Rightarrow> exn + pyval list" where
  \<comment> \<open>the body of \<open>[mask(v) for v in ...]\<close>; \<open>re.search\<close> raises on a value that is no string\<close>
  "mask_each f [] = Inr []"
| "mask_each f (PStr s # vs) =
     (case mask_each f vs of Inl e \<Rightarrow> Inl e | Inr r \<Rightarrow> Inr (PStr (f s) # r))"
| "mask_each f (v # vs) = Inl TypeError"

definition mask_all :: "(pystr \<Rightarrow> pystr) \<Rightarrow> pyval \<Rightarrow> exn + pyval" where
  \<comment> \<open>\<open>[mask(v) for v in values]\<close>\<close>
  "mask_all f vals =
     (case py_iter vals of
        Inl e \<Rightarrow> Inl e
      | Inr vs \<Rightarrow> (case mask_each f vs of Inl e \<Rightarrow> Inl e | Inr r \<Rightarrow> Inr (PList r)))"

fun sanitize_loop ::
  "unicode_db \<Rightarrow> bool \<Rightarrow> pyval \<Rightarrow> pystr list \<Rightarrow> (pystr \<times> pyval) list
     \<Rightarrow> exn + (pystr \<times> pyval) list" where
  \<comment> \<open>the \<open>for\<close> loop over the keys still to visit, \<open>sanitized\<close> as built so far\<close>
  "sanitize_loop U ds data [] sanitized = Inr sanitized"
| "sanitize_loop U ds data (key # keys) sanitized =
     (case py_get data key of
        Inl e \<Rightarrow> Inl e
      | Inr vals \<Rightarrow>
          if \<not> truthy vals then sanitize_loop U ds data keys sanitized
          else if key = ascii ''phone_numbers'' \<and> ds then
            (case mask_all (mask_phone U) vals of
               Inl e \<Rightarrow> Inl e
             | Inr r \<Rightarrow> sanitize_loop U ds data keys (dict_set sanitized key r))
          else if key = ascii ''id_numbers'' \<and> ds then
            (case mask_all (mask_id_number U) vals of
               Inl e \<Rightarrow> Inl e
             | Inr r \<Rightarrow> sanitize_loop U ds data keys (dict_set sanitized key r))
          else sanitize_loop U ds data keys (dict_set sanitized key vals))"

definition sanitize :: "unicode_db \<Rightarrow> bool \<Rightarrow> pyval \<Rightarrow> exn + pyval" where
  "sanitize U ds data =
     (case sanitize_loop U ds data DEFAULT_FIELD_ORDER [] of
        Inl e \<Rightarrow> Inl e
      | Inr sanitized \<Rightarrow> Inr (PDict sanitized))"

subsection \<open>\<open>format_display\<close>\<close>

fun format_loop ::
  "(pyval \<Rightarrow> pystr) \<Rightarrow> pyval \<Rightarrow> pystr list \<Rightarrow> pystr list \<Rightarrow> exn + pystr list" where
  "format_loop repr data [] lines = Inr lines"
| "format_loop repr data (key # keys) lines =
     (case map_of FIELD_LABELS key of
        None \<Rightarrow> format_loop repr data keys lines
      | Some label \<Rightarrow>
          if label = [] then format_loop repr data keys lines
          else (case py_get data key of
                  Inl e \<Rightarrow> Inl e
                | Inr vals \<Rightarrow>
                    if \<not> truthy vals then format_loop repr data keys lines
                    else (case py_iter vals of
                            Inl e \<Rightarrow> Inl e
                          | Inr vs \<Rightarrow>
                              format_loop repr data keys
                                (lines @ [label @ [0xFF1A]
                                            @ join (ascii '' | '') (map (py_str repr) vs)]))))"

definition format_display :: "(pyval \<Rightarrow> pystr) \<Rightarrow> pyval \<Rightarrow> exn + pystr list" where
  "format_display repr data = format_loop repr data DEFAULT_FIELD_ORDER []"

subsection \<open>\<open>_request\<close> and \<open>fetch\<close>\<close>

text \<open>
  What the remote service does with a request is the input of the model: the call
  \<open>session.get\<close> raises, or returns a response with a status whose body \<open>resp.json\<close>
  parses or fails to parse. The two \<open>try\<close> blocks of \<open>_request\<close> turn every exception
  raised inside them into \<open>None\<close>; the log calls return nothing and are left out.
  \<open>fetch\<close> does not assign to the client; the client is returned with the result.
\<close>

datatype json_body = Unparsable | Parsed pyval

datatype http_outcome = Raises | Response int json_body

type_synonym service = "(pystr \<times> pystr) list \<Rightarrow> pystr \<Rightarrow> http_outcome"

definition request :: "client \<Rightarrow> service \<Rightarrow> pystr \<Rightarrow> pyval" where
  "request c svc target_id =
     (case svc (headers c) target_id of
        Raises \<Rightarrow> PNone
      | Response status body \<Rightarrow>
          if status \<noteq> 200 then PNone
          else (case (case body of
                        Unparsable \<Rightarrow> Inl JSONDecodeError
                      | Parsed j \<Rightarrow> py_get j (ascii ''data'')) of
                  Inl e \<Rightarrow> PNone
                | Inr data \<Rightarrow> if \<not> truthy data then PNone else data))"

definition fetch ::
  "unicode_db \<Rightarrow> client \<Rightarrow> service \<Rightarrow> pystr \<Rightarrow> (exn + pyval) \<times> client" where
  "fetch U c svc target_id =
     (let raw = request c svc target_id
      in if \<not> truthy raw then (Inr PNone, c)
         else (sanitize U (desensitize c) raw, c))"

section \<open>Notions used to state the properties\<close>

definition star :: nat where
  "star = of_char CHR ''*''"

definition digits_at :: "unicode_db \<Rightarrow> pystr \<Rightarrow> nat \<Rightarrow> nat \<Rightarrow> bool" where
  \<comment> \<open>the \<open>n\<close> characters of \<open>s\<close> from position \<open>i\<close> on exist and are digits\<close>
  "digits_at U s i n = (i + n \<le> length s \<and> list_all (cls_d U) (take n (drop i s)))"

definition leftmost_digits :: "unicode_db \<Rightarrow> nat \<Rightarrow> pystr \<Rightarrow> nat \<Rightarrow> bool" where
  \<comment> \<open>\<open>i\<close> is the first position of \<open>s\<close> at which \<open>n\<close> consecutive digits start\<close>
  "leftmost_digits U n s i =
     (digits_at U s i n \<and> list_all (\<lambda>j. \<not> digits_at U s j n) [0..<i])"

definition has_digits :: "unicode_db \<Rightarrow> nat \<Rightarrow> pystr \<Rightarrow> bool" where
  \<comment> \<open>\<open>n\<close> consecutive digits start somewhere in \<open>s\<close>\<close>
  "has_digits U n s = list_ex (\<lambda>i. digits_at U s i n) [0..<Suc (length s)]"

definition exact_run_at :: "unicode_db \<Rightarrow> nat \<Rightarrow> pystr \<Rightarrow> nat \<Rightarrow> bool" where
  \<comment> \<open>In the specification's words: a maximal run of exactly \<open>n\<close> consecutive digits
      starts at \<open>i\<close> (no digit right before it and none right after it).\<close>
  "exact_run_at U n s i =
     (digits_at U s i n \<and> (i = 0 \<or> \<not> cls_d U (s ! (i - 1)))
        \<and> (i + n = length s \<or> \<not> cls_d U (s ! (i + n))))"

definition id18_at :: "unicode_db \<Rightarrow> pystr \<Rightarrow> nat \<Rightarrow> bool" where
  \<comment> \<open>17 digits followed by a digit, \<open>X\<close> or \<open>x\<close> start at \<open>i\<close>\<close>
  "id18_at U s i = (digits_at U s i 17 \<and> i + 17 < length s \<and> cls_09Xx (s ! (i + 17)))"

definition present :: "(pystr \<times> pyval) list \<Rightarrow> pystr \<Rightarrow> bool" where
  \<comment> \<open>the key is in the dict with a value that is not empty\<close>
  "present kvs key = truthy (dict_get kvs key)"

definition str_list :: "pyval \<Rightarrow> bool" where
  \<comment> \<open>a list whose items are strings\<close>
  "str_list v =
     (case v of
        PList vs \<Rightarrow> list_all (\<lambda>x. case x of PStr s \<Rightarrow> True | _ \<Rightarrow> False) vs
      | _ \<Rightarrow> False)"

definition raw_record :: "(pystr \<times> pyval) list \<Rightarrow> bool" where
  \<comment> \<open>a record of the data model: every value is a list of strings\<close>
  "raw_record kvs = list_all (\<lambda>kv. str_list (snd kv)) kvs"

definition on_strs :: "(pystr \<Rightarrow> pystr) \<Rightarrow> pyval \<Rightarrow> pyval" where
  \<comment> \<open>\<open>f\<close> applied to each string of a list, in place\<close>
  "on_strs f v =
     (case v of
        PList vs \<Rightarrow> PList (map (\<lambda>x. case x of PStr s \<Rightarrow> PStr (f s) | _ \<Rightarrow> x) vs)
      | _ \<Rightarrow> v)"

definition strings_of :: "pyval \<Rightarrow> pystr list" where
  \<comment> \<open>the strings of a list of strings\<close>
  "strings_of v =
     (case v of
        PList vs \<Rightarrow> map (\<lambda>x. case x of PStr s \<Rightarrow> s | _ \<Rightarrow> []) vs
      | _ \<Rightarrow> [])"

definition field_mask :: "unicode_db \<Rightarrow> bool \<Rightarrow> pystr \<Rightarrow> pyval \<Rightarrow> pyval" where
  \<comment> \<open>what becomes of the values of a key: masked under the two keys when masking is on\<close>
  "field_mask U ds key v =
     (if key = ascii ''phone_numbers'' \<and> ds then on_strs (mask_phone U) v
      else if key = ascii ''id_numbers'' \<and> ds then on_strs (mask_id_number U) v
      else v)"

definition sample_service :: service where
  \<comment> \<open>a remote service that shows each behaviour, chosen by the identifier\<close>
  "sample_service hs target_id =
     (if target_id = ascii ''1'' then Raises
      else if target_id = ascii ''2'' then Response 404 Unparsable
      else if target_id = ascii ''3'' then Response 200 Unparsable
      else if target_id = ascii ''4'' then Response 200 (Parsed (PDict [(ascii ''code'', PInt 0)]))
      else if target_id = ascii ''5'' then
        Response 200 (Parsed (PDict [(ascii ''data'', PList [PInt 1])]))
      else Response 200 (Parsed (PDict
             [(ascii ''data'',
               PDict [(ascii ''names'', PList [PStr (ascii ''Li'')]),
                      (ascii ''phone_numbers'', PList [PStr (ascii ''13812345678'')]),
                      (ascii ''emails'', PList [])])])))"

definition kept_or_starred :: "unicode_db \<Rightarrow> nat \<Rightarrow> nat \<Rightarrow> bool" where
  \<comment> \<open>an output character is the input character, or a \<open>*\<close> in place of a digit\<close>
  "kept_or_starred U a b = (b = a \<or> (cls_d U a \<and> b = star))"

section \<open>Facts about matching, searching and substituting\<close>

lemma match_here_length: "match_here p s \<Longrightarrow> length p \<le> length s"
  by (induction p s rule: match_here.induct) auto

lemma match_here_replicate:
  "match_here (replicate n P) t \<longleftrightarrow> n \<le> length t \<and> list_all P (take n t)"
proof (induction n arbitrary: t)
  case 0
  then show ?case by simp
next
  case (Suc n)
  then show ?case by (cases t) auto
qed

lemma match_here_append:
  "match_here (p @ q) t \<longleftrightarrow> match_here p t \<and> match_here q (drop (length p) t)"
  by (induction p t rule: match_here.induct) auto

lemma re_search_None_iff:
  "re_search alts s = None \<longleftrightarrow> (\<forall>i\<le>length s. first_alt alts (drop i s) = None)"
proof (induction s)
  case Nil
  then show ?case by (simp split: option.splits)
next
  case (Cons c cs)
  have "(\<forall>i\<le>Suc (length cs). first_alt alts (drop i (c # cs)) = None)
        \<longleftrightarrow> first_alt alts (c # cs) = None
              \<and> (\<forall>i\<le>length cs. first_alt alts (drop i cs) = None)"
    (is "?L \<longleftrightarrow> ?R")
  proof
    assume l: ?L
    have "first_alt alts (drop 0 (c # cs)) = None" using l by blast
    moreover have "first_alt alts (drop i cs) = None" if "i \<le> length cs" for i
      using l [rule_format, of "Suc i"] that by simp
    ultimately show ?R by simp
  next
    assume r: ?R
    show ?L
    proof (intro allI impI)
      fix i assume "i \<le> Suc (length cs)"
      then show "first_alt alts (drop i (c # cs)) = None"
        using r by (cases i) auto
    qed
  qed
  with Cons show ?case
    by (auto split: option.splits)
qed

lemma re_search_leftmost:
  "st \<le> length s \<Longrightarrow> first_alt alts (drop st s) = Some n
     \<Longrightarrow> (\<forall>j<st. first_alt alts (drop j s) = None)
     \<Longrightarrow> re_search alts s = Some (st, st + n)"
proof (induction s arbitrary: st)
  case Nil
  then show ?case by simp
next
  case (Cons c cs)
  show ?case
  proof (cases st)
    case 0
    with Cons.prems show ?thesis by simp
  next
    case (Suc k)
    have none0: "first_alt alts (c # cs) = None"
      using Cons.prems(3) [rule_format, of 0] Suc by simp
    have "re_search alts cs = Some (k, k + n)"
    proof (rule Cons.IH)
      show "k \<le> length cs" using Cons.prems(1) Suc by simp
      show "first_alt alts (drop k cs) = Some n" using Cons.prems(2) Suc by simp
      show "\<forall>j<k. first_alt alts (drop j cs) = None"
        using Cons.prems(3) Suc by (metis Suc_less_eq drop_Suc_Cons)
    qed
    with none0 Suc show ?thesis by simp
  qed
qed

lemma re_sub_Nil: "re_sub p f [] = []"
  by (subst re_sub.simps) (cases p; simp)

lemma re_sub_fullmatch:
  "re_fullmatch p s \<Longrightarrow> p \<noteq> [] \<Longrightarrow> re_sub p f s = f s"
  by (subst re_sub.simps) (simp add: re_fullmatch_def re_sub_Nil)

lemma re_sub_class:
  "re_sub [P] (\<lambda>m. [r]) s = map (\<lambda>c. if P c then r else c) s"
proof (induction s)
  case Nil
  then show ?case by (simp add: re_sub_Nil)
next
  case (Cons c cs)
  then show ?case by (subst re_sub.simps) simp
qed

section \<open>What the two masks compute\<close>

lemma digits_at_match:
  "i \<le> length s \<Longrightarrow> match_here (replicate n (cls_d U)) (drop i s) \<longleftrightarrow> digits_at U s i n"
  by (auto simp: match_here_replicate digits_at_def)

lemma digits_at_le: "digits_at U s i n \<Longrightarrow> i \<le> length s"
  by (simp add: digits_at_def)

lemma digits_at_mono: "digits_at U s i n \<Longrightarrow> m \<le> n \<Longrightarrow> digits_at U s i m"
  unfolding digits_at_def list_all_iff by (auto dest: in_set_takeD simp: min_def) (metis in_set_takeD take_take min.absorb1)

lemma leftmost_digits_iff:
  "leftmost_digits U n s i \<longleftrightarrow> digits_at U s i n \<and> (\<forall>j<i. \<not> digits_at U s j n)"
  by (auto simp: leftmost_digits_def list_all_iff)

lemma has_digits_iff: "has_digits U n s \<longleftrightarrow> (\<exists>i\<le>length s. digits_at U s i n)"
proof -
  have "set [0..<Suc (length s)] = {i. i \<le> length s}"
    by auto
  then show ?thesis
    by (simp add: has_digits_def list_ex_iff Bex_def)
qed

lemma search_digits_found:
  assumes "leftmost_digits U n s i"
  shows "re_search [replicate n (cls_d U)] s = Some (i, i + n)"
proof -
  from assms have at: "digits_at U s i n" and before: "\<forall>j<i. \<not> digits_at U s j n"
    by (simp_all add: leftmost_digits_iff)
  have le: "i \<le> length s" using at by (rule digits_at_le)
  have "first_alt [replicate n (cls_d U)] (drop i s) = Some n"
    using at le by (simp add: digits_at_match)
  moreover have "\<forall>j<i. first_alt [replicate n (cls_d U)] (drop j s) = None"
    using before le by (simp add: digits_at_match)
  ultimately show ?thesis using le by (rule re_search_leftmost [rotated])
qed

lemma search_digits_none:
  assumes "\<not> has_digits U n s"
  shows "re_search [replicate n (cls_d U)] s = None"
  using assms by (simp add: re_search_None_iff has_digits_iff digits_at_match)

lemma mask_phone_found:
  assumes "leftmost_digits U 11 s i"
  shows "mask_phone U s
           = take i s @ take 3 (drop i s) @ stars 4 @ take 4 (drop (i + 7) s) @ drop (i + 11) s"
proof -
  let ?d = "cls_d U"
  let ?digits = "take 11 (drop i s)"
  from assms have at: "digits_at U s i 11" by (simp add: leftmost_digits_iff)
  have srch: "re_search [replicate 11 ?d] s = Some (i, i + 11)"
    using assms by (rule search_digits_found)
  have pat: "replicate 3 ?d @ replicate 4 ?d @ replicate 4 ?d = replicate 11 ?d"
    by (simp add: replicate_add [symmetric])
  have full: "re_fullmatch (replicate 11 ?d) ?digits"
    using at by (auto simp: re_fullmatch_def match_here_replicate digits_at_def)
  have "re_sub (replicate 11 ?d) (\<lambda>m. take 3 m @ stars 4 @ take 4 (drop 7 m)) ?digits
          = take 3 ?digits @ stars 4 @ take 4 (drop 7 ?digits)"
    using full by (rule re_sub_fullmatch) simp
  also have "\<dots> = take 3 (drop i s) @ stars 4 @ take 4 (drop (i + 7) s)"
    by (simp add: drop_take add.commute)
  finally show ?thesis
    by (simp add: mask_phone_def srch pat)
qed

lemma mask_phone_none:
  assumes "\<not> has_digits U 11 s"
  shows "mask_phone U s = map (\<lambda>c. if cls_d U c then star else c) s"
  using search_digits_none [OF assms]
  by (simp add: mask_phone_def stars_def star_def re_sub_class)


lemma digits_at_nth:
  "digits_at U s i n \<longleftrightarrow> i + n \<le> length s \<and> (\<forall>k<n. cls_d U (s ! (i + k)))"
  by (auto simp: digits_at_def list_all_length)

lemma match_here_nth:
  "match_here p t \<longleftrightarrow> length p \<le> length t \<and> (\<forall>k<length p. (p ! k) (t ! k))"
proof (induction p t rule: match_here.induct)
  case (3 p ps c cs)
  then show ?case by (auto simp: All_less_Suc2)
qed auto

lemma cls_d_imp_w: "cls_d U c \<Longrightarrow> cls_w U c"
  by (simp add: cls_w_def)

lemma cls_09Xx_imp_w: "cls_09Xx c \<Longrightarrow> cls_w U c"
  by (auto simp: cls_w_def cls_09Xx_def cls_09AZaz_def)

lemma star_not_d: "\<not> cls_d U star"
  by (simp add: cls_d_def cls_09_def star_def)

lemma star_not_alnum: "\<not> cls_09AZaz star"
  by (simp add: cls_09AZaz_def cls_09_def star_def)

lemma match_here_single: "match_here [P] t \<longleftrightarrow> t \<noteq> [] \<and> P (hd t)"
  by (cases t) auto

lemma id18_match:
  assumes "i \<le> length s"
  shows "match_here (replicate 17 (cls_d U) @ [cls_09Xx]) (drop i s) \<longleftrightarrow> id18_at U s i"
proof -
  have a: "match_here (replicate 17 (cls_d U) @ [cls_09Xx]) (drop i s)
             \<longleftrightarrow> match_here (replicate 17 (cls_d U)) (drop i s)
                   \<and> match_here [cls_09Xx] (drop (i + 17) s)"
    by (simp add: match_here_append add.commute)
  have b: "match_here [cls_09Xx] (drop (i + 17) s)
             \<longleftrightarrow> i + 17 < length s \<and> cls_09Xx (s ! (i + 17))"
    by (auto simp: match_here_single hd_drop_conv_nth)
  show ?thesis
    unfolding a b id18_at_def using assms by (simp add: digits_at_match)
qed

lemma first_alt_id_none:
  assumes "i \<le> length s" and "\<not> digits_at U s i 15"
  shows "first_alt [replicate 17 (cls_d U) @ [cls_09Xx], replicate 15 (cls_d U)] (drop i s) = None"
proof -
  have "\<not> digits_at U s i 17"
    using assms(2) digits_at_mono [of U s i 17 15] by auto
  then have "\<not> id18_at U s i" by (simp add: id18_at_def)
  then show ?thesis using assms by (simp add: id18_match digits_at_match)
qed

lemma search_id_18:
  assumes "leftmost_digits U 15 s i" and "id18_at U s i"
  shows "re_search [replicate 17 (cls_d U) @ [cls_09Xx], replicate 15 (cls_d U)] s
           = Some (i, i + 18)"
proof -
  from assms have at: "digits_at U s i 15" and before: "\<forall>j<i. \<not> digits_at U s j 15"
    by (simp_all add: leftmost_digits_iff)
  have le: "i \<le> length s" using at by (rule digits_at_le)
  have "first_alt [replicate 17 (cls_d U) @ [cls_09Xx], replicate 15 (cls_d U)] (drop i s)
          = Some 18"
    using assms(2) le by (simp add: id18_match)
  moreover have "\<forall>j<i. first_alt [replicate 17 (cls_d U) @ [cls_09Xx], replicate 15 (cls_d U)]
                          (drop j s) = None"
  proof (intro allI impI)
    fix j assume "j < i"
    with before le have "j \<le> length s" and "\<not> digits_at U s j 15" by auto
    then show "first_alt [replicate 17 (cls_d U) @ [cls_09Xx], replicate 15 (cls_d U)]
                 (drop j s) = None"
      by (rule first_alt_id_none)
  qed
  ultimately show ?thesis using le by (rule re_search_leftmost [rotated])
qed

lemma search_id_15:
  assumes "leftmost_digits U 15 s i" and "\<not> id18_at U s i"
  shows "re_search [replicate 17 (cls_d U) @ [cls_09Xx], replicate 15 (cls_d U)] s
           = Some (i, i + 15)"
proof -
  from assms have at: "digits_at U s i 15" and before: "\<forall>j<i. \<not> digits_at U s j 15"
    by (simp_all add: leftmost_digits_iff)
  have le: "i \<le> length s" using at by (rule digits_at_le)
  have "first_alt [replicate 17 (cls_d U) @ [cls_09Xx], replicate 15 (cls_d U)] (drop i s)
          = Some 15"
    using assms(2) at le by (simp add: id18_match digits_at_match)
  moreover have "\<forall>j<i. first_alt [replicate 17 (cls_d U) @ [cls_09Xx], replicate 15 (cls_d U)]
                          (drop j s) = None"
  proof (intro allI impI)
    fix j assume "j < i"
    with before le have "j \<le> length s" and "\<not> digits_at U s j 15" by auto
    then show "first_alt [replicate 17 (cls_d U) @ [cls_09Xx], replicate 15 (cls_d U)]
                 (drop j s) = None"
      by (rule first_alt_id_none)
  qed
  ultimately show ?thesis using le by (rule re_search_leftmost [rotated])
qed

lemma search_id_none:
  assumes "\<not> has_digits U 15 s"
  shows "re_search [replicate 17 (cls_d U) @ [cls_09Xx], replicate 15 (cls_d U)] s = None"
  unfolding re_search_None_iff
proof (intro allI impI)
  fix j assume "j \<le> length s"
  moreover from this assms have "\<not> digits_at U s j 15"
    by (auto simp: has_digits_iff)
  ultimately show "first_alt [replicate 17 (cls_d U) @ [cls_09Xx], replicate 15 (cls_d U)]
                     (drop j s) = None"
    by (rule first_alt_id_none)
qed


lemma has_digits_leftmost:
  assumes "has_digits U n s"
  shows "\<exists>i. leftmost_digits U n s i"
proof -
  from assms obtain i where "digits_at U s i n" by (auto simp: has_digits_iff)
  then have "digits_at U s (LEAST j. digits_at U s j n) n"
    by (rule LeastI)
  moreover have "\<forall>j<(LEAST j. digits_at U s j n). \<not> digits_at U s j n"
    using not_less_Least by blast
  ultimately show ?thesis
    unfolding leftmost_digits_iff by blast
qed

lemma leftmost_has_digits: "leftmost_digits U n s i \<Longrightarrow> has_digits U n s"
  unfolding leftmost_digits_iff has_digits_iff using digits_at_le by blast

lemma fullmatch_p18:
  assumes "id18_at U s i"
  shows "re_fullmatch (replicate 6 (cls_d U) @ replicate 8 (cls_d U) @ replicate 4 (cls_w U))
           (take 18 (drop i s))"
proof -
  from assms have len: "i + 18 \<le> length s"
    and dig: "\<And>k. k < 17 \<Longrightarrow> cls_d U (s ! (i + k))"
    and last: "cls_09Xx (s ! (i + 17))"
    by (auto simp: id18_at_def digits_at_nth)
  have "((replicate 6 (cls_d U) @ replicate 8 (cls_d U) @ replicate 4 (cls_w U)) ! k)
          (take 18 (drop i s) ! k)" if k: "k < 18" for k
  proof -
    have nth: "take 18 (drop i s) ! k = s ! (i + k)"
      using k len by simp
    consider "k < 14" | "14 \<le> k" "k < 17" | "k = 17"
      using k by linarith
    then show ?thesis
    proof cases
      case 1
      then show ?thesis using dig [of k] by (simp add: nth nth_append cls_d_imp_w)
    next
      case 2
      then show ?thesis using dig [of k] by (simp add: nth nth_append cls_d_imp_w)
    next
      case 3
      then show ?thesis using last len by (simp add: nth_append cls_09Xx_imp_w)
    qed
  qed
  then show ?thesis using len by (simp add: re_fullmatch_def match_here_nth)
qed

lemma fullmatch_p15:
  assumes "digits_at U s i 15"
  shows "re_fullmatch (replicate 6 (cls_d U) @ replicate 5 (cls_d U) @ replicate 4 (cls_w U))
           (take 15 (drop i s))"
proof -
  from assms have len: "i + 15 \<le> length s"
    and dig: "\<And>k. k < 15 \<Longrightarrow> cls_d U (s ! (i + k))"
    by (auto simp: digits_at_nth)
  have "((replicate 6 (cls_d U) @ replicate 5 (cls_d U) @ replicate 4 (cls_w U)) ! k)
          (take 15 (drop i s) ! k)" if k: "k < 15" for k
  proof -
    have nth: "take 15 (drop i s) ! k = s ! (i + k)"
      using k len by simp
    show ?thesis
      using dig [OF k] k by (simp add: nth nth_append cls_d_imp_w)
  qed
  then show ?thesis using len by (simp add: re_fullmatch_def match_here_nth)
qed

lemma mask_id_number_18:
  assumes "leftmost_digits U 15 s i" and "id18_at U s i"
  shows "mask_id_number U s
           = take i s @ take 6 (drop i s) @ stars 8 @ take 4 (drop (i + 14) s)
               @ drop (i + 18) s"
proof -
  let ?core = "take 18 (drop i s)"
  let ?p18 = "replicate 6 (cls_d U) @ replicate 8 (cls_d U) @ replicate 4 (cls_w U)"
  have srch: "re_search [replicate 17 (cls_d U) @ [cls_09Xx], replicate 15 (cls_d U)] s
                = Some (i, i + 18)"
    using assms by (rule search_id_18)
  have full: "re_fullmatch ?p18 ?core"
    using assms(2) by (rule fullmatch_p18)
  have "re_sub ?p18 (\<lambda>m. take 6 m @ stars 8 @ take 4 (drop 14 m)) ?core
          = take 6 ?core @ stars 8 @ take 4 (drop 14 ?core)"
    using full by (rule re_sub_fullmatch) simp
  also have "\<dots> = take 6 (drop i s) @ stars 8 @ take 4 (drop (i + 14) s)"
    by (simp add: drop_take add.commute)
  finally show ?thesis
    using full by (simp add: mask_id_number_def srch)
qed

lemma mask_id_number_15:
  assumes "leftmost_digits U 15 s i" and "\<not> id18_at U s i"
  shows "mask_id_number U s
           = take i s @ take 6 (drop i s) @ stars 6 @ take 4 (drop (i + 11) s)
               @ drop (i + 15) s"
proof -
  let ?core = "take 15 (drop i s)"
  let ?p18 = "replicate 6 (cls_d U) @ replicate 8 (cls_d U) @ replicate 4 (cls_w U)"
  let ?p15 = "replicate 6 (cls_d U) @ replicate 5 (cls_d U) @ replicate 4 (cls_w U)"
  from assms(1) have at: "digits_at U s i 15" by (simp add: leftmost_digits_iff)
  have srch: "re_search [replicate 17 (cls_d U) @ [cls_09Xx], replicate 15 (cls_d U)] s
                = Some (i, i + 15)"
    using assms by (rule search_id_15)
  have no18: "\<not> re_fullmatch ?p18 ?core"
    by (auto simp: re_fullmatch_def)
  have full: "re_fullmatch ?p15 ?core"
    using at by (rule fullmatch_p15)
  have "re_sub ?p15 (\<lambda>m. take 6 m @ stars 6 @ take 4 (drop 11 m)) ?core
          = take 6 ?core @ stars 6 @ take 4 (drop 11 ?core)"
    using full by (rule re_sub_fullmatch) simp
  also have "\<dots> = take 6 (drop i s) @ stars 6 @ take 4 (drop (i + 11) s)"
    by (simp add: drop_take add.commute)
  finally show ?thesis
    using full no18 by (simp add: mask_id_number_def srch)
qed

lemma mask_id_number_none:
  assumes "\<not> has_digits U 15 s"
  shows "mask_id_number U s = map (\<lambda>c. if cls_09AZaz c then star else c) s"
  using search_id_none [OF assms]
  by (simp add: mask_id_number_def stars_def star_def re_sub_class)

lemma take_drop_split: "take n (drop i s) @ drop (i + n) s = drop i s"
  using append_take_drop_id [of n "drop i s"] by (simp add: add.commute)

lemma split_at_match:
  "s = take i s @ take 3 (drop i s) @ take 4 (drop (i + 3) s) @ take 4 (drop (i + 7) s)
         @ drop (i + 11) s"
proof -
  have "take 4 (drop (i + 7) s) @ drop (i + 11) s = drop (i + 7) s"
    using take_drop_split [of 4 "i + 7" s] by (simp add: add.assoc)
  moreover have "take 4 (drop (i + 3) s) @ drop (i + 7) s = drop (i + 3) s"
    using take_drop_split [of 4 "i + 3" s] by (simp add: add.assoc)
  moreover have "take 3 (drop i s) @ drop (i + 3) s = drop i s"
    by (rule take_drop_split)
  ultimately show ?thesis by simp
qed

lemma kept_or_starred_same: "list_all2 (kept_or_starred U) xs xs"
  by (simp add: list_all2_same kept_or_starred_def)

lemma mask_phone_rel: "list_all2 (kept_or_starred U) s (mask_phone U s)"
proof (cases "has_digits U 11 s")
  case False
  then show ?thesis
    by (simp add: mask_phone_none list_all2_map2 list_all2_same kept_or_starred_def)
next
  case True
  then obtain i where lm: "leftmost_digits U 11 s i"
    using has_digits_leftmost by blast
  then have len: "i + 11 \<le> length s" and dig: "\<And>k. k < 11 \<Longrightarrow> cls_d U (s ! (i + k))"
    by (auto simp: leftmost_digits_iff digits_at_nth)
  have mid: "list_all2 (kept_or_starred U) (take 4 (drop (i + 3) s)) (stars 4)"
  proof -
    have "cls_d U (take 4 (drop (i + 3) s) ! k)" if "k < 4" for k
      using dig [of "3 + k"] that len by (simp add: add.assoc)
    then show ?thesis
      using len by (simp add: list_all2_conv_all_nth stars_def star_def kept_or_starred_def)
  qed
  have "list_all2 (kept_or_starred U)
          (take i s @ take 3 (drop i s) @ take 4 (drop (i + 3) s) @ take 4 (drop (i + 7) s)
             @ drop (i + 11) s)
          (take i s @ take 3 (drop i s) @ stars 4 @ take 4 (drop (i + 7) s)
             @ drop (i + 11) s)"
    by (intro list_all2_appendI kept_or_starred_same mid)
  then show ?thesis
    using split_at_match [of s i] mask_phone_found [OF lm] by simp
qed

lemma mask_phone_shape:
  "length (mask_phone U s) = length s \<and>
   (\<forall>i<length s. (\<not> cls_d U (s ! i) \<longrightarrow> mask_phone U s ! i = s ! i) \<and>
                  (mask_phone U s ! i \<noteq> s ! i \<longrightarrow> mask_phone U s ! i = star))"
  using mask_phone_rel [of U s]
  by (auto simp: list_all2_conv_all_nth kept_or_starred_def)

lemma phone_fallback_idem:
  assumes "\<not> has_digits U 11 s"
  shows "mask_phone U (mask_phone U s) = mask_phone U s"
proof -
  let ?f = "\<lambda>c. if cls_d U c then star else c"
  have nod: "\<not> cls_d U (?f c)" for c
    by (simp add: star_not_d)
  have "\<not> digits_at U (map ?f s) i 11" for i
  proof
    assume "digits_at U (map ?f s) i 11"
    then have len: "i + 11 \<le> length s"
      and all: "\<forall>k<11. cls_d U (map ?f s ! (i + k))"
      unfolding digits_at_nth length_map by blast+
    from all have "(0::nat) < 11 \<longrightarrow> cls_d U (map ?f s ! (i + 0))" by (rule spec)
    with len have "cls_d U (?f (s ! i))" by simp
    then show False using nod [of "s ! i"] by simp
  qed
  then have "\<not> has_digits U 11 (map ?f s)"
    by (simp add: has_digits_iff)
  then have "mask_phone U (map ?f s) = map ?f (map ?f s)"
    by (rule mask_phone_none)
  also have "\<dots> = map ?f s"
    by (simp add: star_not_d)
  finally show ?thesis
    by (simp add: mask_phone_none [OF assms])
qed

lemma id_fallback_idem:
  assumes "\<not> has_digits U 15 s"
  shows "mask_id_number U (mask_id_number U s) = mask_id_number U s"
proof -
  let ?g = "\<lambda>c. if cls_09AZaz c then star else c"
  have "\<not> digits_at U (map ?g s) i 15" if "i \<le> length s" for i
  proof
    assume a: "digits_at U (map ?g s) i 15"
    then have len: "i + 15 \<le> length s" by (simp add: digits_at_nth)
    have "cls_d U (s ! (i + k))" if "k < 15" for k
    proof -
      from a that len have "cls_d U (?g (s ! (i + k)))"
        by (simp add: digits_at_nth)
      then show ?thesis
        by (cases "cls_09AZaz (s ! (i + k))") (simp_all add: star_not_d)
    qed
    with len have "digits_at U s i 15" by (simp add: digits_at_nth)
    with assms that show False by (auto simp: has_digits_iff)
  qed
  then have "\<not> has_digits U 15 (map ?g s)"
    by (simp add: has_digits_iff)
  then have "mask_id_number U (map ?g s) = map ?g (map ?g s)"
    by (rule mask_id_number_none)
  also have "\<dots> = map ?g s"
    by (simp add: star_not_alnum)
  finally show ?thesis
    by (simp add: mask_id_number_none [OF assms])
qed

lemma ten_alnum_all_stars:
  assumes "length s = 10" and "list_all cls_09AZaz s"
  shows "mask_id_number U s = stars 10"
proof -
  have "\<not> has_digits U 15 s"
    using assms(1) by (simp add: has_digits_iff digits_at_def)
  then have "mask_id_number U s = map (\<lambda>c. if cls_09AZaz c then star else c) s"
    by (rule mask_id_number_none)
  also have "\<dots> = map (\<lambda>c. star) s"
    using assms(2) by (simp add: list_all_iff)
  also have "\<dots> = stars 10"
    using assms(1) by (simp add: map_replicate_const stars_def star_def)
  finally show ?thesis .
qed

section \<open>The phone mask\<close>

text \<open>
  Claim C1, as the code has it. \<open>_mask_phone\<close> looks for the first position at which
  11 consecutive digits start; the run they belong to may be longer. When there is such a
  position, those 11 digits are replaced by their first 3 digits, four \<open>*\<close> and their last
  4 digits, and the text before and after them is kept as it is.
\<close>

theorem mask_phone_leftmost_11_digits:
  "leftmost_digits U 11 s i \<Longrightarrow>
     mask_phone U s
       = take i s @ take 3 (drop i s) @ stars 4 @ take 4 (drop (i + 7) s) @ drop (i + 11) s"
  by (rule mask_phone_found)

theorem mask_phone_leftmost_11_digits_witness:
  "leftmost_digits ascii_only 11 (ascii ''tel 13812345678 x8'') 4 \<and>
   mask_phone ascii_only (ascii ''tel 13812345678 x8'') = ascii ''tel 138****5678 x8''"
proof -
  let ?s = "ascii ''tel 13812345678 x8''"
  have h: "leftmost_digits ascii_only 11 ?s 4"
    by code_simp
  have e: "take 4 ?s @ take 3 (drop 4 ?s) @ stars 4 @ take 4 (drop (4 + 7) ?s)
             @ drop (4 + 11) ?s = ascii ''tel 138****5678 x8''"
    by code_simp
  from h trans [OF mask_phone_leftmost_11_digits [OF h] e] show ?thesis
    by (rule conjI)
qed

text \<open>
  The claim as stated asks for a maximal run of exactly 11 digits. In a string of 12 digits
  no position starts such a run, yet the search matches its first 11 digits and the mask
  is applied to them.
\<close>

theorem mask_phone_12_digits_counterexample:
  "\<not> list_ex (exact_run_at ascii_only 11 (ascii ''138123456789''))
        [0..<Suc (length (ascii ''138123456789''))] \<and>
   re_search [replicate 11 (cls_d ascii_only)] (ascii ''138123456789'') = Some (0, 11) \<and>
   mask_phone ascii_only (ascii ''138123456789'') = ascii ''138****56789''"
  by code_simp

text \<open>
  Claim C10. The phone mask keeps the length of its input; a character that is no digit
  stays where it is, and a position whose character changes held a digit and now
  holds \<open>*\<close>.
\<close>

theorem mask_phone_length_and_non_digits:
  "length (mask_phone U s) = length s \<and>
   (\<forall>i<length s. (\<not> cls_d U (s ! i) \<longrightarrow> mask_phone U s ! i = s ! i) \<and>
                  (mask_phone U s ! i \<noteq> s ! i \<longrightarrow>
                     cls_d U (s ! i) \<and> mask_phone U s ! i = star))"
  using mask_phone_shape [of U s] by blast

theorem mask_phone_length_and_non_digits_witness:
  "length (mask_phone ascii_only (ascii ''tel 13812345678'')) = 15 \<and>
   \<not> cls_d ascii_only (ascii ''tel 13812345678'' ! 1) \<and>
   mask_phone ascii_only (ascii ''tel 13812345678'') ! 1 = ascii ''tel 13812345678'' ! 1 \<and>
   mask_phone ascii_only (ascii ''tel 13812345678'') ! 8 \<noteq> ascii ''tel 13812345678'' ! 8 \<and>
   mask_phone ascii_only (ascii ''tel 13812345678'') ! 8 = star"
proof -
  let ?s = "ascii ''tel 13812345678''"
  have l: "length ?s = 15" by code_simp
  have n1: "\<not> cls_d ascii_only (?s ! 1)" by code_simp
  have n8: "mask_phone ascii_only ?s ! 8 \<noteq> ?s ! 8" by code_simp
  from mask_phone_length_and_non_digits [of ascii_only ?s] l n1 n8
  show ?thesis by simp
qed

section \<open>The identity-number mask\<close>

text \<open>
  Claim C2. The docstring of \<open>_mask_id_number\<close> promises, for the 15-digit form, the first
  6 and the last 3 digits with 6 \<open>*\<close> between: \<open>110101900307123 -> 110101******123\<close>.
  The pattern of that branch keeps the last 4 characters, so the code returns 16 characters
  for the 15 of the docstring's own example.
\<close>

theorem mask_id_number_15_digits_output:
  "mask_id_number U (ascii ''110101900307123'') = ascii ''110101******7123'' \<and>
   mask_id_number U (ascii ''110101900307123'') \<noteq> ascii ''110101******123''"
  by code_simp

text \<open>
  Claim C3. When the leftmost match is the 18-character form (no 15 digits start before
  position \<open>i\<close>, and 17 digits followed by a digit, \<open>X\<close> or \<open>x\<close> start at \<open>i\<close>), the
  match is replaced by its first 6 digits, 8 \<open>*\<close> and its last 4 characters, between the
  unchanged text before and after it; \<open>110101199003071234\<close> becomes
  \<open>110101********1234\<close>.
\<close>

theorem mask_id_number_18_form:
  "(leftmost_digits U 15 s i \<and> id18_at U s i \<longrightarrow>
      mask_id_number U s
        = take i s @ take 6 (drop i s) @ stars 8 @ take 4 (drop (i + 14) s)
            @ drop (i + 18) s) \<and>
   mask_id_number U (ascii ''110101199003071234'') = ascii ''110101********1234''"
proof
  show "leftmost_digits U 15 s i \<and> id18_at U s i \<longrightarrow>
          mask_id_number U s
            = take i s @ take 6 (drop i s) @ stars 8 @ take 4 (drop (i + 14) s)
                @ drop (i + 18) s"
    using mask_id_number_18 by blast
  show "mask_id_number U (ascii ''110101199003071234'') = ascii ''110101********1234''"
    by code_simp
qed

theorem mask_id_number_18_form_witness:
  "leftmost_digits ascii_only 15 (ascii ''id 11010119900307123X ok'') 3 \<and>
   id18_at ascii_only (ascii ''id 11010119900307123X ok'') 3 \<and>
   mask_id_number ascii_only (ascii ''id 11010119900307123X ok'')
     = ascii ''id 110101********123X ok''"
proof -
  let ?s = "ascii ''id 11010119900307123X ok''"
  have h: "leftmost_digits ascii_only 15 ?s 3 \<and> id18_at ascii_only ?s 3"
    by code_simp
  have e: "take 3 ?s @ take 6 (drop 3 ?s) @ stars 8 @ take 4 (drop (3 + 14) ?s)
             @ drop (3 + 18) ?s = ascii ''id 110101********123X ok''"
    by code_simp
  from mask_id_number_18_form [of ascii_only ?s 3] h
  have "mask_id_number ascii_only ?s
          = take 3 ?s @ take 6 (drop 3 ?s) @ stars 8 @ take 4 (drop (3 + 14) ?s)
              @ drop (3 + 18) ?s"
    by blast
  with e h show ?thesis by (simp only:)
qed

text \<open>
  Claim C9, as the code has it. A string of 10 ASCII letters and digits holds no match, so
  \<open>_mask_id_number\<close> takes its first \<open>return\<close> and replaces every character by \<open>*\<close>.
\<close>

theorem mask_id_number_10_alnum:
  "length s = 10 \<Longrightarrow> list_all cls_09AZaz s \<Longrightarrow> mask_id_number U s = stars 10"
  by (rule ten_alnum_all_stars)

theorem mask_id_number_10_alnum_witness:
  "length (ascii ''abcde12345'') = 10 \<and> list_all cls_09AZaz (ascii ''abcde12345'') \<and>
   mask_id_number ascii_only (ascii ''abcde12345'') = ascii ''**********''"
proof -
  have l: "length (ascii ''abcde12345'') = 10" by code_simp
  have a: "list_all cls_09AZaz (ascii ''abcde12345'')" by code_simp
  have e: "stars 10 = ascii ''**********''" by code_simp
  from l a trans [OF mask_id_number_10_alnum [OF l a] e] show ?thesis
    by (intro conjI)
qed

text \<open>
  The branch that keeps the first 3 and the last 2 characters is applied to a match only,
  and a match has 15 or 18 characters: on 10 letters and digits the result keeps nothing.
\<close>

theorem mask_id_number_10_alnum_counterexample:
  "length (ascii ''A1b2C3d4E5'') = 10 \<and> list_all cls_09AZaz (ascii ''A1b2C3d4E5'') \<and>
   \<not> has_digits ascii_only 15 (ascii ''A1b2C3d4E5'') \<and>
   mask_id_number ascii_only (ascii ''A1b2C3d4E5'') = ascii ''**********'' \<and>
   mask_id_number ascii_only (ascii ''A1b2C3d4E5'') \<noteq> ascii ''A1b*****E5''"
  by code_simp

section \<open>Masking twice\<close>

text \<open>
  Claim C8, as the code has it. A value in which the mask finds no match (no 11 digits in
  a row for the phone mask, no 15 for the identity-number mask) has all its digits, or all
  its ASCII letters and digits, replaced by \<open>*\<close>; masking the result again changes
  nothing.
\<close>

theorem remask_after_fallback:
  "(\<not> has_digits U 11 number \<longrightarrow>
      mask_phone U (mask_phone U number) = mask_phone U number) \<and>
   (\<not> has_digits U 15 id_num \<longrightarrow>
      mask_id_number U (mask_id_number U id_num) = mask_id_number U id_num)"
  using phone_fallback_idem id_fallback_idem by blast

theorem remask_after_fallback_witness:
  "\<not> has_digits ascii_only 11 (ascii ''tel 12345'') \<and>
   mask_phone ascii_only (mask_phone ascii_only (ascii ''tel 12345''))
     = mask_phone ascii_only (ascii ''tel 12345'') \<and>
   \<not> has_digits ascii_only 15 (ascii ''id AB123'') \<and>
   mask_id_number ascii_only (mask_id_number ascii_only (ascii ''id AB123''))
     = mask_id_number ascii_only (ascii ''id AB123'')"
proof -
  have h1: "\<not> has_digits ascii_only 11 (ascii ''tel 12345'')" by code_simp
  have h2: "\<not> has_digits ascii_only 15 (ascii ''id AB123'')" by code_simp
  from remask_after_fallback [of ascii_only "ascii ''tel 12345''" "ascii ''id AB123''"] h1 h2
  show ?thesis by blast
qed

text \<open>
  A value masked through the matched branch keeps digits, and the second application,
  finding no match any more, replaces them: the claim as stated fails for both masks.
\<close>

theorem remask_matched_value_counterexample:
  "mask_phone ascii_only (ascii ''13812345678'') = ascii ''138****5678'' \<and>
   mask_phone ascii_only (mask_phone ascii_only (ascii ''13812345678'')) = ascii ''***********'' \<and>
   mask_id_number ascii_only (ascii ''110101199003071234'') = ascii ''110101********1234'' \<and>
   mask_id_number ascii_only (mask_id_number ascii_only (ascii ''110101199003071234''))
     = ascii ''******************''"
  by code_simp

section \<open>Sanitizing a record\<close>

lemma phone_ne_id: "ascii ''phone_numbers'' \<noteq> ascii ''id_numbers''"
  by (simp add: ascii_def)

lemma field_order: "DEFAULT_FIELD_ORDER =
   [ascii ''names'', ascii ''nicknames'', ascii ''phone_numbers'', ascii ''id_numbers'',
    ascii ''wb_numbers'', ascii ''passwords'', ascii ''emails'', ascii ''addresses'']"
  by (simp add: DEFAULT_FIELD_ORDER_def FIELD_LABELS_def)

lemma distinct_field_order: "distinct DEFAULT_FIELD_ORDER"
  unfolding field_order by (simp add: ascii_def)

lemma qq_not_canonical: "ascii ''qq_numbers'' \<notin> set DEFAULT_FIELD_ORDER"
  unfolding field_order by (simp add: ascii_def)


lemma dict_set_fresh: "key \<notin> fst ` set kvs \<Longrightarrow> dict_set kvs key v = kvs @ [(key, v)]"
  by (induction kvs key v rule: dict_set.induct) auto

lemma mask_each_strs:
  "list_all (\<lambda>x. case x of PStr s \<Rightarrow> True | _ \<Rightarrow> False) vs \<Longrightarrow>
     mask_each f vs = Inr (map (\<lambda>x. case x of PStr s \<Rightarrow> PStr (f s) | _ \<Rightarrow> x) vs)"
  by (induction f vs rule: mask_each.induct) auto

lemma mask_all_str_list: "str_list v \<Longrightarrow> mask_all f v = Inr (on_strs f v)"
  by (cases v) (simp_all add: str_list_def mask_all_def on_strs_def mask_each_strs)

lemma raw_record_present:
  assumes "raw_record kvs" and "present kvs key"
  shows "str_list (dict_get kvs key)"
proof (cases "map_of kvs key")
  case None
  with assms(2) show ?thesis by (simp add: present_def dict_get_def)
next
  case (Some v)
  then have "(key, v) \<in> set kvs" by (rule map_of_SomeD)
  with assms(1) have "str_list v" by (auto simp: raw_record_def list_all_iff)
  with Some show ?thesis by (simp add: dict_get_def)
qed

lemma sanitize_loop_skip:
  "\<forall>k\<in>set keys. \<not> present kvs k \<Longrightarrow> sanitize_loop U ds (PDict kvs) keys acc = Inr acc"
  by (induction keys arbitrary: acc) (simp_all add: present_def)

lemma sanitize_loop_record:
  assumes "raw_record kvs"
  shows "distinct keys \<Longrightarrow> set keys \<inter> fst ` set acc = {} \<Longrightarrow>
           sanitize_loop U ds (PDict kvs) keys acc
             = Inr (acc @ map (\<lambda>k. (k, field_mask U ds k (dict_get kvs k)))
                            (filter (present kvs) keys))"
proof (induction keys arbitrary: acc)
  case Nil
  then show ?case by simp
next
  case (Cons key keys)
  show ?case
  proof (cases "present kvs key")
    case False
    with Cons show ?thesis by (simp add: present_def)
  next
    case True
    let ?v = "field_mask U ds key (dict_get kvs key)"
    have sl: "str_list (dict_get kvs key)"
      using assms True by (rule raw_record_present)
    have fresh: "key \<notin> fst ` set acc" using Cons.prems(2) by auto
    have "set keys \<inter> fst ` set (acc @ [(key, ?v)]) = {}"
      using Cons.prems by auto
    with Cons.IH [of "acc @ [(key, ?v)]"] Cons.prems(1)
    have ih: "sanitize_loop U ds (PDict kvs) keys (acc @ [(key, ?v)])
                = Inr ((acc @ [(key, ?v)]) @ map (\<lambda>k. (k, field_mask U ds k (dict_get kvs k)))
                                               (filter (present kvs) keys))"
      by simp
    from True have t: "truthy (dict_get kvs key)" by (simp add: present_def)
    consider (phone) "key = ascii ''phone_numbers''" "ds"
      | (ident) "key = ascii ''id_numbers''" "ds"
      | (other) "\<not> (key = ascii ''phone_numbers'' \<and> ds)" "\<not> (key = ascii ''id_numbers'' \<and> ds)"
      by blast
    then have "sanitize_loop U ds (PDict kvs) (key # keys) acc
                 = sanitize_loop U ds (PDict kvs) keys (acc @ [(key, ?v)])"
    proof cases
      case phone
      then have "?v = on_strs (mask_phone U) (dict_get kvs key)"
        by (simp add: field_mask_def)
      then show ?thesis
        using t phone sl fresh by (simp add: mask_all_str_list dict_set_fresh)
    next
      case ident
      then have "?v = on_strs (mask_id_number U) (dict_get kvs key)"
        by (simp add: field_mask_def phone_ne_id [symmetric])
      then show ?thesis
        using t ident sl fresh
        by (simp add: mask_all_str_list dict_set_fresh phone_ne_id [symmetric])
    next
      case other
      then have "?v = dict_get kvs key"
        by (auto simp: field_mask_def)
      then show ?thesis
        using t other fresh by (auto simp: dict_set_fresh)
    qed
    with ih True show ?thesis by simp
  qed
qed

lemma sanitize_record:
  assumes "raw_record kvs"
  shows "sanitize U ds (PDict kvs)
           = Inr (PDict (map (\<lambda>k. (k, field_mask U ds k (dict_get kvs k)))
                           (filter (present kvs) DEFAULT_FIELD_ORDER)))"
  using sanitize_loop_record [OF assms distinct_field_order, of "[]" U ds]
  by (simp add: sanitize_def)

section \<open>Formatting a record\<close>

lemma labels_lookup:
  "\<forall>kl\<in>set FIELD_LABELS. map_of FIELD_LABELS (fst kl) = Some (snd kl) \<and> snd kl \<noteq> []"
  by (simp add: FIELD_LABELS_def ascii_def)

lemma py_str_strings:
  "list_all (\<lambda>x. case x of PStr s \<Rightarrow> True | _ \<Rightarrow> False) vs \<Longrightarrow>
     map (py_str repr) vs = strings_of (PList vs)"
  by (induction vs) (auto simp: strings_of_def py_str_def split: pyval.splits)

lemma format_loop_record:
  assumes "raw_record kvs"
  shows "\<forall>kl\<in>set ps. map_of FIELD_LABELS (fst kl) = Some (snd kl) \<and> snd kl \<noteq> [] \<Longrightarrow>
           format_loop repr (PDict kvs) (map fst ps) lines
             = Inr (lines @ map (\<lambda>kl. snd kl @ [0xFF1A]
                                        @ join (ascii '' | '') (strings_of (dict_get kvs (fst kl))))
                              (filter (\<lambda>kl. present kvs (fst kl)) ps))"
proof (induction ps arbitrary: lines)
  case Nil
  then show ?case by simp
next
  case (Cons kl ps)
  obtain key label where kl: "kl = (key, label)" by (cases kl)
  from Cons.prems kl have lab: "map_of FIELD_LABELS key = Some label" "label \<noteq> []"
    by auto
  from Cons.prems have rest: "\<forall>kl\<in>set ps. map_of FIELD_LABELS (fst kl) = Some (snd kl) \<and> snd kl \<noteq> []"
    by simp
  show ?case
  proof (cases "present kvs key")
    case False
    with Cons.IH [OF rest] lab kl show ?thesis by (simp add: present_def)
  next
    case True
    have "str_list (dict_get kvs key)"
      using assms True by (rule raw_record_present)
    then obtain vs where vs: "dict_get kvs key = PList vs"
      and strs: "list_all (\<lambda>x. case x of PStr s \<Rightarrow> True | _ \<Rightarrow> False) vs"
      by (auto simp: str_list_def split: pyval.splits)
    from True vs have ne: "vs \<noteq> []" by (simp add: present_def)
    show ?thesis
      using Cons.IH [OF rest] lab kl True vs ne py_str_strings [OF strs, of repr]
      by simp
  qed
qed

lemma format_display_record:
  assumes "raw_record kvs"
  shows "format_display repr (PDict kvs)
           = Inr (map (\<lambda>kl. snd kl @ [0xFF1A]
                              @ join (ascii '' | '') (strings_of (dict_get kvs (fst kl))))
                    (filter (\<lambda>kl. present kvs (fst kl)) FIELD_LABELS))"
  using format_loop_record [OF assms labels_lookup, of repr "[]"]
  by (simp add: format_display_def DEFAULT_FIELD_ORDER_def)

lemma format_display_empty: "format_display repr (PDict []) = Inr []"
  using format_display_record [of "[]" repr]
  by (simp add: raw_record_def present_def dict_get_def)

lemma sanitize_values_truthy:
  assumes "raw_record kvs"
  shows "list_all (\<lambda>kv. truthy (snd kv))
           (map (\<lambda>k. (k, field_mask U ds k (dict_get kvs k)))
              (filter (present kvs) DEFAULT_FIELD_ORDER))"
proof -
  have "truthy (field_mask U ds k (dict_get kvs k))" if "present kvs k" for k
  proof -
    have "str_list (dict_get kvs k)" using assms that by (rule raw_record_present)
    then obtain vs where vs: "dict_get kvs k = PList vs"
      by (auto simp: str_list_def split: pyval.splits)
    with that have "vs \<noteq> []" by (simp add: present_def)
    with vs show ?thesis by (simp add: field_mask_def on_strs_def)
  qed
  then show ?thesis by (simp add: list_all_iff)
qed

section \<open>The record operations\<close>

lemma map_of_keyed:
  "k \<in> set ks \<Longrightarrow> dict_get (map (\<lambda>k. (k, g k)) ks) k = g k"
  by (induction ks) (auto simp: dict_get_def)

lemma field_mask_length:
  "str_list v \<Longrightarrow> \<exists>vs vs'. v = PList vs \<and> field_mask U ds k v = PList vs' \<and> length vs' = length vs"
  by (cases v) (auto simp: str_list_def field_mask_def on_strs_def)

lemma fetch_no_payload:
  assumes "request c svc t = PNone"
  shows "fetch U c svc t = (Inr PNone, c)"
  using assms by (simp add: fetch_def)

lemma fetch_record:
  assumes "svc (headers c) t = Response 200 (Parsed j)"
    and "py_get j (ascii ''data'') = Inr (PDict kvs)" and "kvs \<noteq> []" and "raw_record kvs"
  shows "\<exists>out. fetch U c svc t = (Inr (PDict out), c) \<and> list_all (\<lambda>kv. truthy (snd kv)) out"
proof -
  have "request c svc t = PDict kvs"
    using assms(1,2,3) by (simp add: request_def)
  then have "fetch U c svc t = (sanitize U (desensitize c) (PDict kvs), c)"
    using assms(3) by (simp add: fetch_def)
  then show ?thesis
    using sanitize_record [OF assms(4), of U "desensitize c"]
      sanitize_values_truthy [OF assms(4), of U "desensitize c"]
    by simp
qed

text \<open>
  Claim C4, as the code has it. On a record whose values are lists of strings,
  \<open>_sanitize\<close> returns a dict whose keys are the keys of \<open>DEFAULT_FIELD_ORDER\<close> that
  the record holds with a non-empty value, in that order. Each keeps as many values as it
  had, in the same positions: the values of \<open>phone_numbers\<close> and \<open>id_numbers\<close> go
  through their mask when masking is on, every other value list is the one of the input.
  With masking off the result is thus the input restricted to the keys of
  \<open>DEFAULT_FIELD_ORDER\<close> that are present and not empty.
\<close>

theorem sanitize_filters_and_masks:
  "raw_record kvs \<Longrightarrow>
     \<exists>out. sanitize U ds (PDict kvs) = Inr (PDict out) \<and>
       map fst out = filter (present kvs) DEFAULT_FIELD_ORDER \<and>
       (\<forall>k\<in>set (map fst out).
          (\<exists>vs vs'. dict_get kvs k = PList vs \<and> dict_get out k = PList vs'
                      \<and> length vs' = length vs) \<and>
          dict_get out k =
            (if ds \<and> k = ascii ''phone_numbers'' then on_strs (mask_phone U) (dict_get kvs k)
             else if ds \<and> k = ascii ''id_numbers''
               then on_strs (mask_id_number U) (dict_get kvs k)
             else dict_get kvs k))"
proof -
  assume rr: "raw_record kvs"
  let ?g = "\<lambda>k. field_mask U ds k (dict_get kvs k)"
  let ?keys = "filter (present kvs) DEFAULT_FIELD_ORDER"
  let ?out = "map (\<lambda>k. (k, ?g k)) ?keys"
  have res: "sanitize U ds (PDict kvs) = Inr (PDict ?out)"
    using rr by (rule sanitize_record)
  have keys: "map fst ?out = ?keys"
    by (simp add: comp_def)
  have each: "(\<exists>vs vs'. dict_get kvs k = PList vs \<and> dict_get ?out k = PList vs'
                  \<and> length vs' = length vs) \<and>
              dict_get ?out k =
                (if ds \<and> k = ascii ''phone_numbers'' then on_strs (mask_phone U) (dict_get kvs k)
                 else if ds \<and> k = ascii ''id_numbers''
                   then on_strs (mask_id_number U) (dict_get kvs k)
                 else dict_get kvs k)" if k: "k \<in> set ?keys" for k
  proof -
    have get: "dict_get ?out k = ?g k"
      using k by (rule map_of_keyed)
    from k have "present kvs k" by simp
    with rr have "str_list (dict_get kvs k)" by (rule raw_record_present)
    from field_mask_length [OF this, of U ds k] get
    show ?thesis by (auto simp: field_mask_def)
  qed
  show ?thesis
    using res keys each by (intro exI [of _ ?out]) (simp only: keys, blast)
qed

theorem sanitize_filters_and_masks_witness:
  "raw_record [(ascii ''names'', PList [PStr [0x5F20, 0x4E09]]),
               (ascii ''qq_numbers'', PList [PStr (ascii ''10001'')]),
               (ascii ''phone_numbers'', PList [PStr (ascii ''13812345678''), PStr (ascii ''x'')]),
               (ascii ''emails'', PList [])] \<and>
   (\<exists>out. sanitize ascii_only True
            (PDict [(ascii ''names'', PList [PStr [0x5F20, 0x4E09]]),
                    (ascii ''qq_numbers'', PList [PStr (ascii ''10001'')]),
                    (ascii ''phone_numbers'',
                     PList [PStr (ascii ''13812345678''), PStr (ascii ''x'')]),
                    (ascii ''emails'', PList [])]) = Inr (PDict out) \<and>
          map fst out = [ascii ''names'', ascii ''phone_numbers''])"
proof -
  let ?kvs = "[(ascii ''names'', PList [PStr [0x5F20, 0x4E09]]),
               (ascii ''qq_numbers'', PList [PStr (ascii ''10001'')]),
               (ascii ''phone_numbers'', PList [PStr (ascii ''13812345678''), PStr (ascii ''x'')]),
               (ascii ''emails'', PList [])]"
  have h: "raw_record ?kvs"
    by (simp add: raw_record_def str_list_def)
  have f: "filter (present ?kvs) DEFAULT_FIELD_ORDER = [ascii ''names'', ascii ''phone_numbers'']"
    by (simp add: field_order present_def dict_get_def ascii_def)
  from sanitize_filters_and_masks [OF h, of ascii_only True] f h
  show ?thesis by auto
qed

text \<open>
  \<open>DEFAULT_FIELD_ORDER\<close> is the key list of \<open>FIELD_LABELS\<close>, which has no
  \<open>qq_numbers\<close>: a non-empty \<open>qq_numbers\<close> is removed as well, so with masking off the
  result is not the input without its empty keys.
\<close>

theorem sanitize_drops_qq_numbers_counterexample:
  "raw_record [(ascii ''qq_numbers'', PList [PStr (ascii ''10001'')])] \<and>
   present [(ascii ''qq_numbers'', PList [PStr (ascii ''10001'')])] (ascii ''qq_numbers'') \<and>
   sanitize ascii_only False (PDict [(ascii ''qq_numbers'', PList [PStr (ascii ''10001'')])])
     = Inr (PDict [])"
  by (simp add: raw_record_def str_list_def present_def sanitize_def field_order dict_get_def
        ascii_def)

text \<open>
  Claim C6, as the code has it. For a record whose only non-empty key is \<open>qq_numbers\<close>,
  \<open>_sanitize\<close> returns the empty dict, and \<open>format_display\<close> of that dict returns no
  line.
\<close>

theorem only_qq_numbers_not_shown:
  "present kvs (ascii ''qq_numbers'') \<Longrightarrow>
   \<forall>k. k \<noteq> ascii ''qq_numbers'' \<longrightarrow> \<not> present kvs k \<Longrightarrow>
     sanitize U ds (PDict kvs) = Inr (PDict []) \<and> format_display repr (PDict []) = Inr []"
proof -
  assume only: "\<forall>k. k \<noteq> ascii ''qq_numbers'' \<longrightarrow> \<not> present kvs k"
  have "\<forall>k\<in>set DEFAULT_FIELD_ORDER. \<not> present kvs k"
  proof
    fix k assume "k \<in> set DEFAULT_FIELD_ORDER"
    with qq_not_canonical have ne: "k \<noteq> ascii ''qq_numbers''" by metis
    show "\<not> present kvs k" by (rule only [rule_format, OF ne])
  qed
  then have loop: "sanitize_loop U ds (PDict kvs) DEFAULT_FIELD_ORDER [] = Inr []"
    by (rule sanitize_loop_skip)
  have "sanitize U ds (PDict kvs) = Inr (PDict [])"
    unfolding sanitize_def loop by simp
  then show ?thesis
    using format_display_empty [of repr] by (rule conjI)
qed

theorem only_qq_numbers_not_shown_witness:
  "present [(ascii ''qq_numbers'', PList [PStr (ascii ''10001'')]), (ascii ''names'', PList [])]
     (ascii ''qq_numbers'') \<and>
   sanitize ascii_only True
     (PDict [(ascii ''qq_numbers'', PList [PStr (ascii ''10001'')]), (ascii ''names'', PList [])])
     = Inr (PDict []) \<and>
   format_display (\<lambda>v. []) (PDict []) = Inr []"
proof -
  let ?kvs = "[(ascii ''qq_numbers'', PList [PStr (ascii ''10001'')]), (ascii ''names'', PList [])]"
  have p: "present ?kvs (ascii ''qq_numbers'')"
    by (simp add: present_def dict_get_def)
  have n: "\<forall>k. k \<noteq> ascii ''qq_numbers'' \<longrightarrow> \<not> present ?kvs k"
    by (simp add: present_def dict_get_def ascii_def)
  from p only_qq_numbers_not_shown [OF p n, of ascii_only True "\<lambda>v. []"]
  show ?thesis by (intro conjI) blast+
qed

text \<open>
  The claim as stated has \<open>_sanitize\<close> keep the key; the loop never visits it, and the
  result is the empty (falsy) dict.
\<close>

theorem only_qq_numbers_dropped_counterexample:
  "present [(ascii ''qq_numbers'', PList [PStr (ascii ''10001''), PStr (ascii ''10002'')])]
     (ascii ''qq_numbers'') \<and>
   sanitize ascii_only True
     (PDict [(ascii ''qq_numbers'', PList [PStr (ascii ''10001''), PStr (ascii ''10002'')])])
     = Inr (PDict []) \<and>
   \<not> truthy (PDict [])"
  by (simp add: present_def sanitize_def field_order dict_get_def ascii_def)

text \<open>
  Claim C7. On a record whose values are lists of strings, \<open>format_display\<close> returns, in
  the order of \<open>FIELD_LABELS\<close>, one line for each labelled key that the record holds
  with a non-empty value: the label, the fullwidth colon U+FF1A and the values joined with
  \<open>" | "\<close>. The record of the specification's example gives its two lines.
\<close>

theorem format_display_lines:
  "(raw_record kvs \<longrightarrow>
      format_display repr (PDict kvs)
        = Inr (map (\<lambda>kl. snd kl @ [0xFF1A]
                           @ join (ascii '' | '') (strings_of (dict_get kvs (fst kl))))
                 (filter (\<lambda>kl. present kvs (fst kl)) FIELD_LABELS))) \<and>
   format_display repr
     (PDict [(ascii ''names'', PList [PStr [0x5F20, 0x4E09]]),
             (ascii ''phone_numbers'', PList [PStr (ascii ''138****5678'')])])
     = Inr [[0x59D3, 0x540D, 0xFF1A, 0x5F20, 0x4E09],
            [0x53F7, 0x7801, 0xFF1A] @ ascii ''138****5678'']"
proof
  show "raw_record kvs \<longrightarrow>
      format_display repr (PDict kvs)
        = Inr (map (\<lambda>kl. snd kl @ [0xFF1A]
                           @ join (ascii '' | '') (strings_of (dict_get kvs (fst kl))))
                 (filter (\<lambda>kl. present kvs (fst kl)) FIELD_LABELS))"
    using format_display_record by blast
  show "format_display repr
     (PDict [(ascii ''names'', PList [PStr [0x5F20, 0x4E09]]),
             (ascii ''phone_numbers'', PList [PStr (ascii ''138****5678'')])])
     = Inr [[0x59D3, 0x540D, 0xFF1A, 0x5F20, 0x4E09],
            [0x53F7, 0x7801, 0xFF1A] @ ascii ''138****5678'']"
    by (simp add: format_display_def field_order FIELD_LABELS_def dict_get_def py_str_def
          ascii_def)
qed

theorem format_display_lines_witness:
  "raw_record [(ascii ''emails'', PList [PStr (ascii ''a@b.c''), PStr (ascii ''d@e.f'')]),
               (ascii ''qq_numbers'', PList [PStr (ascii ''10001'')]),
               (ascii ''nicknames'', PList []),
               (ascii ''names'', PList [PStr (ascii ''Li'')])] \<and>
   format_display (\<lambda>v. [])
     (PDict [(ascii ''emails'', PList [PStr (ascii ''a@b.c''), PStr (ascii ''d@e.f'')]),
             (ascii ''qq_numbers'', PList [PStr (ascii ''10001'')]),
             (ascii ''nicknames'', PList []),
             (ascii ''names'', PList [PStr (ascii ''Li'')])])
     = Inr [[0x59D3, 0x540D, 0xFF1A] @ ascii ''Li'',
            [0x90AE, 0x7BB1, 0xFF1A] @ ascii ''a@b.c | d@e.f'']"
proof -
  let ?kvs = "[(ascii ''emails'', PList [PStr (ascii ''a@b.c''), PStr (ascii ''d@e.f'')]),
               (ascii ''qq_numbers'', PList [PStr (ascii ''10001'')]),
               (ascii ''nicknames'', PList []),
               (ascii ''names'', PList [PStr (ascii ''Li'')])]"
  have h: "raw_record ?kvs"
    by (simp add: raw_record_def str_list_def)
  have e: "map (\<lambda>kl. snd kl @ [0xFF1A]
                       @ join (ascii '' | '') (strings_of (dict_get ?kvs (fst kl))))
             (filter (\<lambda>kl. present ?kvs (fst kl)) FIELD_LABELS)
           = [[0x59D3, 0x540D, 0xFF1A] @ ascii ''Li'',
              [0x90AE, 0x7BB1, 0xFF1A] @ ascii ''a@b.c | d@e.f'']"
    by (simp add: FIELD_LABELS_def present_def dict_get_def strings_of_def ascii_def)
  from format_display_lines [of ?kvs "\<lambda>v. []"] h
  have "format_display (\<lambda>v. []) (PDict ?kvs)
          = Inr (map (\<lambda>kl. snd kl @ [0xFF1A]
                             @ join (ascii '' | '') (strings_of (dict_get ?kvs (fst kl))))
                   (filter (\<lambda>kl. present ?kvs (fst kl)) FIELD_LABELS))"
    by blast
  with e h show ?thesis by (simp only:)
qed

section \<open>Fetching\<close>

text \<open>
  The behaviours of the remote service that \<open>fetch\<close> handles: it returns \<open>None\<close>
  without raising when the request raises, when the status is not 200, when the body does
  not parse, and when the body has no \<open>data\<close> field or a falsy one (a body that is no
  object included); it returns a dict of non-empty fields when \<open>data\<close> is a non-empty
  dict whose values are lists of strings.
\<close>

lemma fetch_outcomes:
  "(svc (headers c) t = Raises \<longrightarrow> fetch U c svc t = (Inr PNone, c)) \<and>
   (\<forall>status body. svc (headers c) t = Response status body \<and> status \<noteq> 200 \<longrightarrow>
      fetch U c svc t = (Inr PNone, c)) \<and>
   (svc (headers c) t = Response 200 Unparsable \<longrightarrow> fetch U c svc t = (Inr PNone, c)) \<and>
   (\<forall>j. svc (headers c) t = Response 200 (Parsed j) \<and>
        (\<forall>d. py_get j (ascii ''data'') = Inr d \<longrightarrow> \<not> truthy d) \<longrightarrow>
      fetch U c svc t = (Inr PNone, c)) \<and>
   (\<forall>j kvs. svc (headers c) t = Response 200 (Parsed j) \<and>
        py_get j (ascii ''data'') = Inr (PDict kvs) \<and> kvs \<noteq> [] \<and> raw_record kvs \<longrightarrow>
      (\<exists>out. fetch U c svc t = (Inr (PDict out), c) \<and>
             list_all (\<lambda>kv. truthy (snd kv)) out))"
proof (intro conjI allI impI)
  assume "svc (headers c) t = Raises"
  then have "request c svc t = PNone" by (simp add: request_def)
  then show "fetch U c svc t = (Inr PNone, c)" by (rule fetch_no_payload)
next
  fix status body
  assume "svc (headers c) t = Response status body \<and> status \<noteq> 200"
  then have "request c svc t = PNone" by (simp add: request_def)
  then show "fetch U c svc t = (Inr PNone, c)" by (rule fetch_no_payload)
next
  assume "svc (headers c) t = Response 200 Unparsable"
  then have "request c svc t = PNone" by (simp add: request_def)
  then show "fetch U c svc t = (Inr PNone, c)" by (rule fetch_no_payload)
next
  fix j
  assume a: "svc (headers c) t = Response 200 (Parsed j) \<and>
             (\<forall>d. py_get j (ascii ''data'') = Inr d \<longrightarrow> \<not> truthy d)"
  then have "request c svc t = PNone"
    by (cases "py_get j (ascii ''data'')") (simp_all add: request_def)
  then show "fetch U c svc t = (Inr PNone, c)" by (rule fetch_no_payload)
next
  fix j kvs
  assume "svc (headers c) t = Response 200 (Parsed j) \<and>
          py_get j (ascii ''data'') = Inr (PDict kvs) \<and> kvs \<noteq> [] \<and> raw_record kvs"
  then show "\<exists>out. fetch U c svc t = (Inr (PDict out), c) \<and>
                   list_all (\<lambda>kv. truthy (snd kv)) out"
    using fetch_record by blast
qed

lemma fetch_outcomes_instance:
  "fetch ascii_only (init [] True) sample_service (ascii ''1'') = (Inr PNone, init [] True) \<and>
   fetch ascii_only (init [] True) sample_service (ascii ''2'') = (Inr PNone, init [] True) \<and>
   fetch ascii_only (init [] True) sample_service (ascii ''3'') = (Inr PNone, init [] True) \<and>
   fetch ascii_only (init [] True) sample_service (ascii ''4'') = (Inr PNone, init [] True) \<and>
   (\<exists>out. fetch ascii_only (init [] True) sample_service (ascii ''6'')
            = (Inr (PDict out), init [] True) \<and>
          list_all (\<lambda>kv. truthy (snd kv)) out)"
proof -
  let ?c = "init [] True"
  have s1: "sample_service (headers ?c) (ascii ''1'') = Raises"
    by (simp add: sample_service_def)
  have s2: "sample_service (headers ?c) (ascii ''2'') = Response 404 Unparsable \<and> (404::int) \<noteq> 200"
    by (simp add: sample_service_def ascii_def)
  have s3: "sample_service (headers ?c) (ascii ''3'') = Response 200 Unparsable"
    by (simp add: sample_service_def ascii_def)
  have s4: "sample_service (headers ?c) (ascii ''4'')
              = Response 200 (Parsed (PDict [(ascii ''code'', PInt 0)])) \<and>
            (\<forall>d. py_get (PDict [(ascii ''code'', PInt 0)]) (ascii ''data'') = Inr d
                   \<longrightarrow> \<not> truthy d)"
    by (auto simp: sample_service_def dict_get_def ascii_def)
  let ?rec = "[(ascii ''names'', PList [PStr (ascii ''Li'')]),
               (ascii ''phone_numbers'', PList [PStr (ascii ''13812345678'')]),
               (ascii ''emails'', PList [])]"
  have s6: "sample_service (headers ?c) (ascii ''6'')
              = Response 200 (Parsed (PDict [(ascii ''data'', PDict ?rec)])) \<and>
            py_get (PDict [(ascii ''data'', PDict ?rec)]) (ascii ''data'') = Inr (PDict ?rec) \<and>
            ?rec \<noteq> [] \<and> raw_record ?rec"
    by (simp add: sample_service_def dict_get_def raw_record_def str_list_def ascii_def)
  have r1: "fetch ascii_only ?c sample_service (ascii ''1'') = (Inr PNone, ?c)"
    using fetch_outcomes [of sample_service ?c "ascii ''1''" ascii_only] s1 by blast
  have r2: "fetch ascii_only ?c sample_service (ascii ''2'') = (Inr PNone, ?c)"
    using fetch_outcomes [of sample_service ?c "ascii ''2''" ascii_only] s2 by blast
  have r3: "fetch ascii_only ?c sample_service (ascii ''3'') = (Inr PNone, ?c)"
    using fetch_outcomes [of sample_service ?c "ascii ''3''" ascii_only] s3 by blast
  have r4: "fetch ascii_only ?c sample_service (ascii ''4'') = (Inr PNone, ?c)"
    using fetch_outcomes [of sample_service ?c "ascii ''4''" ascii_only] s4 by blast
  have r6: "\<exists>out. fetch ascii_only ?c sample_service (ascii ''6'') = (Inr (PDict out), ?c) \<and>
                  list_all (\<lambda>kv. truthy (snd kv)) out"
    using fetch_outcomes [of sample_service ?c "ascii ''6''" ascii_only] s6 by blast
  from r1 r2 r3 r4 r6 show ?thesis by (intro conjI)
qed

text \<open>
  Claim C5. \<open>fetch\<close> is to return \<open>None\<close> on every failure and never to raise: its
  docstring says so, and \<open>_request\<close> turns every exception raised inside it into
  \<open>None\<close>, among them the \<open>AttributeError\<close> of a body that is no object. But
  \<open>_sanitize\<close> runs after \<open>_request\<close> has returned, outside its \<open>try\<close> blocks: when
  the \<open>data\<close> field is truthy and no dict, such as the JSON array \<open>[1]\<close>, the
  \<open>AttributeError\<close> of \<open>data.get\<close> leaves \<open>fetch\<close>. The same array as the whole body
  gives \<open>None\<close>.
\<close>

theorem fetch_raises_on_array_data:
  "sample_service (headers (init [] True)) (ascii ''5'')
     = Response 200 (Parsed (PDict [(ascii ''data'', PList [PInt 1])])) \<and>
   fst (fetch ascii_only (init [] True) sample_service (ascii ''5'')) = Inl AttributeError \<and>
   fst (fetch ascii_only (init [] True)
          (\<lambda>hs target_id. Response 200 (Parsed (PList [PInt 1]))) (ascii ''5''))
     = Inr PNone"
  by (simp add: fetch_def request_def sample_service_def init_def sanitize_def field_order
        dict_get_def ascii_def)

end
